theory Spec2Isabelle
  imports Main
begin

section \<open>Group resolution of the Google connector\<close>

text \<open>
  A shallow embedding of \<^verbatim>\<open>connector/google/google.go\<close>: the group lookup of
  \<^verbatim>\<open>createIdentity\<close>, the concurrent \<^verbatim>\<open>getAllGroups\<close> and the recursive, paginated
  \<^verbatim>\<open>getGroups\<close>.
\<close>

subsection \<open>The admin directory service\<close>

text \<open>
  \<^verbatim>\<open>admin.Groups\<close> as the code reads it: the e-mail addresses of the listed groups, in
  order, and \<^verbatim>\<open>NextPageToken\<close>.
\<close>

type_synonym groupsPage = "string list \<times> string"

text \<open>
  \<^verbatim>\<open>adminSrv.Groups.List().Domain(d).UserKey(k).PageToken(t).Context(ctx).Do()\<close>: the
  request is determined by domain, user key and page token; the answer is an error message
  (\<open>Inl\<close>, which includes a cancelled context) or a page. The service is external, so it is
  a parameter of every function below.
\<close>

type_synonym adminService = "string \<Rightarrow> string \<Rightarrow> string \<Rightarrow> string + groupsPage"

text \<open>
  What a call works on besides its arguments: the \<^verbatim>\<open>sync.Map\<close> behind the pointer
  \<^verbatim>\<open>checkedGroups\<close> (only its key set is ever used) and the requests sent to the
  directory service so far, as pairs of user key and page token, oldest first.
\<close>

type_synonym store = "string set \<times> (string \<times> string) list"

text \<open>
  A Go result \<^verbatim>\<open>([]string, error)\<close> together with the store the call leaves behind; the
  error is \<open>None\<close> for \<^verbatim>\<open>nil\<close>.
\<close>

type_synonym groupsResult = "string list \<times> string option \<times> store"

text \<open>
  What a call has come to within a given number of nested steps: it has \<open>Returned\<close> its
  result, or it is still \<open>Pending\<close>, with the store as far as it got.
\<close>

datatype ('s, 'r) run = Pending 's | Returned 'r

type_synonym groupsRun = "(store, groupsResult) run"

subsection \<open>The connector\<close>

text \<open>
  The claims read from the ID token, the verified token (\<^verbatim>\<open>oidc.IDToken\<close>: its subject and
  what \<^verbatim>\<open>idToken.Claims(&claims)\<close> decodes to, an error message or the claims), the OAuth2
  token (\<^verbatim>\<open>token.Extra("id_token").(string)\<close>, absent when the type assertion fails, and the
  refresh token), \<^verbatim>\<open>connector.Scopes\<close> and \<^verbatim>\<open>connector.Identity\<close>. The last two are
  declared in another package; the records have the fields that \<^verbatim>\<open>google.go\<close> reads and
  writes. Field names are those of the source, prefixed where two structures share one.
\<close>

record claims =
  claims_Username :: string
  claims_Email :: string
  claims_EmailVerified :: bool
  HostedDomain :: string

record idToken =
  Subject :: string
  Claims :: "string + claims"

record oauth2Token =
  id_token :: "string option"
  RefreshToken :: string

record scopes =
  OfflineAccess :: bool
  scopes_Groups :: bool

record identity =
  UserID :: string
  Username :: string
  Email :: string
  EmailVerified :: bool
  ConnectorData :: string
  Groups :: "string list"

text \<open>
  The fields of \<^verbatim>\<open>googleConnector\<close> that \<^verbatim>\<open>createIdentity\<close> and the group lookup read.
  \<open>verifier\<close> is \<^verbatim>\<open>c.verifier.Verify(ctx, rawIDToken)\<close>, an external library call; \<open>adminSrv\<close> is
  \<open>None\<close> for the \<^verbatim>\<open>nil\<close> pointer.
\<close>

record googleConnector =
  verifier :: "string \<Rightarrow> string + idToken"
  hostedDomains :: "string list"
  domain :: string
  groups :: "string list"
  fetchTransitiveGroupMembership :: bool
  adminSrv :: "adminService option"

subsection \<open>getGroups\<close>

text \<open>
  \<^verbatim>\<open>fmt.Errorf(prefix + "%v", err)\<close>: a new error whose message is the prefix followed by
  the message of \<open>err\<close>.
\<close>

definition Errorf :: "string \<Rightarrow> string \<Rightarrow> string" where
  "Errorf prefix err = prefix @ err"

text \<open>
  \<open>getGroups_pages\<close> is the \<^verbatim>\<open>for { ... }\<close> loop of \<^verbatim>\<open>getGroups\<close>, entered with the page
  token of the previous answer and the \<^verbatim>\<open>userGroups\<close> collected so far; \<open>getGroups_range\<close>
  is the \<^verbatim>\<open>for _, group := range groupsList.Groups\<close> loop inside it. The service \<open>srv\<close> is
  the receiver's \<^verbatim>\<open>c.adminSrv\<close>, which the only caller has checked not to be \<^verbatim>\<open>nil\<close>.

  The first argument bounds how deeply requests may follow one another: a request leaves one
  unit less for the rest of its loop and for the calls nested in it. A call that would need
  a request with no unit left has not returned, and its value is \<open>Pending\<close>.
\<close>

fun getGroups_pages ::
    "nat \<Rightarrow> adminService \<Rightarrow> googleConnector \<Rightarrow> string \<Rightarrow> string \<Rightarrow> string list \<Rightarrow> store
      \<Rightarrow> groupsRun"
  and getGroups_range ::
    "nat \<Rightarrow> adminService \<Rightarrow> googleConnector \<Rightarrow> string list \<Rightarrow> string list \<Rightarrow> store
      \<Rightarrow> groupsRun"
where
  "getGroups_pages 0 srv c email pageToken userGroups st = Pending st"
| "getGroups_pages (Suc n) srv c email pageToken userGroups (checked, reqs) =
    (case srv (domain c) email pageToken of
       Inl err \<Rightarrow>
         Returned ([], Some (Errorf ''could not list groups: '' err), (checked, reqs @ [(email, pageToken)]))
     | Inr (groupsList, nextPageToken) \<Rightarrow>
         (case getGroups_range n srv c groupsList userGroups (checked, reqs @ [(email, pageToken)]) of
            Pending st' \<Rightarrow> Pending st'
          | Returned (userGroups', Some err, st') \<Rightarrow> Returned ([], Some err, st')
          | Returned (userGroups', None, st') \<Rightarrow>
              if nextPageToken = [] then Returned (userGroups', None, st')
              else getGroups_pages n srv c email nextPageToken userGroups' st'))"
| "getGroups_range n srv c [] userGroups st = Returned (userGroups, None, st)"
| "getGroups_range n srv c (grp # rest) userGroups (checked, reqs) =
    (if grp \<in> checked then getGroups_range n srv c rest userGroups (checked, reqs)
     else if \<not> fetchTransitiveGroupMembership c
       then getGroups_range n srv c rest (userGroups @ [grp]) (insert grp checked, reqs)
     else
       (case getGroups_pages n srv c grp [] [] (insert grp checked, reqs) of
          Pending st' \<Rightarrow> Pending st'
        | Returned (transitiveGroups, Some err, st') \<Rightarrow>
            Returned ([], Some (Errorf ''could not list transitive groups: '' err), st')
        | Returned (transitiveGroups, None, st') \<Rightarrow>
            getGroups_range n srv c rest (userGroups @ [grp] @ transitiveGroups) st'))"

text \<open>
  \<^verbatim>\<open>getGroups(ctx, email, checkedGroups)\<close>: \<^verbatim>\<open>userGroups\<close> starts as \<^verbatim>\<open>nil\<close> and the first
  request carries the empty page token of a fresh \<^verbatim>\<open>admin.Groups\<close>.
\<close>

definition getGroups ::
    "nat \<Rightarrow> adminService \<Rightarrow> googleConnector \<Rightarrow> string \<Rightarrow> store \<Rightarrow> groupsRun" where
  "getGroups n srv c email st = getGroups_pages n srv c email [] [] st"

text \<open>
  The run of a lookup as a caller sees it that made the \<^verbatim>\<open>sync.Map\<close> for this lookup alone:
  the requests sent remain, the checked set is gone.
\<close>

definition withoutChecked ::
    "groupsRun \<Rightarrow> ((string \<times> string) list, string list \<times> string option \<times> (string \<times> string) list) run" where
  "withoutChecked r =
    (case r of
       Pending (checkedGroups, reqs') \<Rightarrow> Pending reqs'
     | Returned (gs, err, (checkedGroups, reqs')) \<Rightarrow> Returned (gs, err, reqs'))"

subsection \<open>getAllGroups\<close>

text \<open>
  \<^verbatim>\<open>getAllGroups\<close> sends one request for the groups of \<^verbatim>\<open>userKey\<close>, with no page token, and
  starts one goroutine per group of the answer. Each goroutine calls \<^verbatim>\<open>getGroups\<close> on its
  group with the shared \<^verbatim>\<open>checkedGroups\<close>, appends the group itself to what \<^verbatim>\<open>getGroups\<close>
  returned and sends every element to \<^verbatim>\<open>groupsCh\<close>, where the collecting goroutine appends it
  to \<^verbatim>\<open>groups\<close>. \<^verbatim>\<open>g.Wait()\<close> returns the first error of a goroutine, and then the result is
  \<^verbatim>\<open>nil\<close> with that error.

  The Go scheduler decides how the goroutines interleave. \<open>getAllGroups_workers\<close> is the
  schedule in which they run one after the other, in the order of \<^verbatim>\<open>parentGroups.Groups\<close>,
  each to its end before the next one starts; an error ends the run, as the cancelled
  context ends the remaining goroutines. The page token of the first answer is not read by
  the source.
\<close>

fun getAllGroups_workers ::
    "nat \<Rightarrow> adminService \<Rightarrow> googleConnector \<Rightarrow> string list \<Rightarrow> string list \<Rightarrow> store
      \<Rightarrow> groupsRun"
where
  "getAllGroups_workers n srv c [] groupsCollected st = Returned (groupsCollected, None, st)"
| "getAllGroups_workers n srv c (email # seeds) groupsCollected st =
    (case getGroups n srv c email st of
       Pending st' \<Rightarrow> Pending st'
     | Returned (childGroups, Some err, st') \<Rightarrow> Returned ([], Some err, st')
     | Returned (childGroups, None, st') \<Rightarrow>
         getAllGroups_workers n srv c seeds (groupsCollected @ childGroups @ [email]) st')"

definition getAllGroups ::
    "nat \<Rightarrow> adminService \<Rightarrow> googleConnector \<Rightarrow> string \<Rightarrow> (string \<times> string) list
      \<Rightarrow> ((string \<times> string) list, string list \<times> string option \<times> (string \<times> string) list) run" where
  "getAllGroups n srv c userKey reqs =
    (case srv (domain c) userKey [] of
       Inl err \<Rightarrow> Returned ([], Some err, reqs @ [(userKey, [])])
     | Inr (parentGroups, nextPageToken) \<Rightarrow>
         withoutChecked (getAllGroups_workers n srv c parentGroups [] ({}, reqs @ [(userKey, [])])))"

subsection \<open>createIdentity\<close>

text \<open>
  Modelled from the spec: \<^verbatim>\<open>pkg/groups.Filter\<close> is imported by \<^verbatim>\<open>google.go\<close> and its source is
  not part of the files at hand. The specification describes the step as filtering the
  result to the intersection with the allowed groups: the resolved groups that occur in
  the allow-list are kept, in their order.
\<close>

definition Filter :: "string list \<Rightarrow> string list \<Rightarrow> string list" where
  "Filter given required = filter (\<lambda>g. g \<in> set required) given"

text \<open>
  The message of the error for a user in none of the required groups (\<^verbatim>\<open>%q\<close> is rendered as
  the name between double quotes; its escaping of special characters is left out).
\<close>

definition notInRequiredGroups :: "string \<Rightarrow> string" where
  "notInRequiredGroups username =
     ''google: user '' @ [CHR 0x22] @ username @ [CHR 0x22] @ '' is not in any of the required groups''"

text \<open>
  The choice between the two lookups in \<^verbatim>\<open>createIdentity\<close>:
  \<^verbatim>\<open>c.getAllGroups(ctx, claims.Email)\<close> when \<^verbatim>\<open>c.fetchTransitiveGroupMembership\<close> is set,
  \<^verbatim>\<open>c.getGroups(ctx, claims.Email, &sync.Map{})\<close> otherwise.
\<close>

definition resolveGroups ::
    "nat \<Rightarrow> adminService \<Rightarrow> googleConnector \<Rightarrow> string \<Rightarrow> (string \<times> string) list
      \<Rightarrow> ((string \<times> string) list, string list \<times> string option \<times> (string \<times> string) list) run" where
  "resolveGroups n srv c email reqs =
    (if fetchTransitiveGroupMembership c then getAllGroups n srv c email reqs
     else withoutChecked (getGroups n srv c email ({}, reqs)))"

text \<open>
  \<^verbatim>\<open>createIdentity(ctx, identity, s, token)\<close>, with the requests sent to the directory
  service so far; the result is the Go result \<^verbatim>\<open>(connector.Identity, error)\<close> and the
  requests sent.
\<close>

definition createIdentity ::
    "nat \<Rightarrow> googleConnector \<Rightarrow> identity \<Rightarrow> scopes \<Rightarrow> oauth2Token \<Rightarrow> (string \<times> string) list
      \<Rightarrow> ((string \<times> string) list, identity \<times> string option \<times> (string \<times> string) list) run" where
  "createIdentity n c ident s token reqs =
    (case id_token token of
       None \<Rightarrow> Returned (ident, Some ''google: no id_token in token response'', reqs)
     | Some rawIDToken \<Rightarrow>
    (case verifier c rawIDToken of
       Inl err \<Rightarrow> Returned (ident, Some (Errorf ''google: failed to verify ID Token: '' err), reqs)
     | Inr idTok \<Rightarrow>
    (case Claims idTok of
       Inl err \<Rightarrow> Returned (ident, Some (Errorf ''oidc: failed to decode claims: '' err), reqs)
     | Inr cl \<Rightarrow>
    if hostedDomains c \<noteq> [] \<and> HostedDomain cl \<notin> set (hostedDomains c)
    then Returned (ident, Some (Errorf ''oidc: unexpected hd claim '' (HostedDomain cl)), reqs)
    else
      let newIdentity = (\<lambda>gs. \<lparr>UserID = Subject idTok, Username = claims_Username cl,
             Email = claims_Email cl, EmailVerified = claims_EmailVerified cl,
             ConnectorData = RefreshToken token, Groups = gs\<rparr>)
      in
      (case (scopes_Groups s, adminSrv c) of
         (True, Some srv) \<Rightarrow>
           (case resolveGroups n srv c (claims_Email cl) reqs of
              Pending reqs' \<Rightarrow> Pending reqs'
            | Returned (gs, Some err, reqs') \<Rightarrow>
                Returned (ident, Some (Errorf ''google: could not retrieve groups: '' err), reqs')
            | Returned (gs, None, reqs') \<Rightarrow>
                if groups c \<noteq> [] then
                  (let gs' = Filter gs (groups c) in
                   if gs' = []
                   then Returned (ident, Some (notInRequiredGroups (claims_Username cl)), reqs')
                   else Returned (newIdentity gs', None, reqs'))
                else Returned (newIdentity gs, None, reqs'))
       | _ \<Rightarrow> Returned (newIdentity [], None, reqs)))))"

subsection \<open>A directory with paginated group lists\<close>

text \<open>
  A state of the directory: for each member key that has one, the pages in which the
  directory lists the groups the member belongs to. A member without an entry, or with no
  page, is listed on a single empty page. Page \<open>i > 0\<close> is requested with a token of \<open>i\<close>
  characters; the last page is answered with the empty token.
\<close>

type_synonym directory = "(string \<times> string list list) list"

definition pagesOf :: "directory \<Rightarrow> string \<Rightarrow> string list list" where
  "pagesOf D m = (case map_of D m of None \<Rightarrow> [[]] | Some ps \<Rightarrow> if ps = [] then [[]] else ps)"

definition pageTokenOf :: "nat \<Rightarrow> string" where
  "pageTokenOf i = replicate i (CHR ''p'')"

definition directoryService :: "directory \<Rightarrow> adminService" where
  "directoryService D domainName userKey tok =
    (let ps = pagesOf D userKey; i = length tok in
     if i < length ps
     then Inr (ps ! i, if Suc i < length ps then pageTokenOf (Suc i) else [])
     else Inl ''invalid page token'')"

text \<open>
  The membership graph of a directory: an edge from a member to each group listed on one of
  its pages, and the groups reachable from a member along one or more edges.
\<close>

definition memberOf :: "directory \<Rightarrow> (string \<times> string) set" where
  "memberOf D = {(m, g). g \<in> set (concat (pagesOf D m))}"

definition reachableGroups :: "directory \<Rightarrow> string \<Rightarrow> string set" where
  "reachableGroups D root = (memberOf D)\<^sup>+ `` {root}"

text \<open>
  A number of nested steps that suffices for any lookup in a directory: the longest page list
  for every group of the directory, and once more for the member the lookup starts from.
\<close>

definition allGroups :: "directory \<Rightarrow> string list" where
  "allGroups D = remdups (concat (concat (map snd D)))"

definition maxPages :: "directory \<Rightarrow> nat" where
  "maxPages D = fold max (map (\<lambda>(m, ps). length ps) D) 1"

definition fuelFor :: "directory \<Rightarrow> nat" where
  "fuelFor D = maxPages D * Suc (length (allGroups D))"

text \<open>
  What a successful transitive run over the groups \<open>S\<close> leaves behind when it starts with
  \<open>userGroups\<close> and the checked set \<open>checked\<close>: the groups it appends are new, distinct and
  reachable from \<open>S\<close>, they are exactly what it adds to the checked set, every group
  listed for one of them is checked, and so is \<open>S\<close>.
\<close>

definition expanded ::
  "directory \<Rightarrow> string set \<Rightarrow> string list \<Rightarrow> string set \<Rightarrow> groupsRun \<Rightarrow> bool" where
  "expanded D S userGroups checked r =
    (\<exists>new reqs'. r = Returned (userGroups @ new, None, (checked \<union> set new, reqs'))
       \<and> distinct new \<and> set new \<inter> checked = {}
       \<and> set new \<subseteq> (memberOf D)\<^sup>* `` S
       \<and> (\<forall>x\<in>set new. memberOf D `` {x} \<subseteq> checked \<union> set new)
       \<and> S \<subseteq> checked \<union> set new)"

subsection \<open>Example configurations\<close>

text \<open>
  The user \<open>jane\<close>: the claims of the user, the verified ID token that carries them, the
  OAuth2 token of the exchange, the scopes of a caller that asks for groups, and the empty
  identity that \<^verbatim>\<open>HandleCallback\<close> passes to \<^verbatim>\<open>createIdentity\<close>.
\<close>

definition exampleClaims :: claims where
  "exampleClaims = \<lparr>claims_Username = ''Jane'', claims_Email = ''jane'',
     claims_EmailVerified = True, HostedDomain = ''example.com''\<rparr>"

definition exampleIDToken :: idToken where
  "exampleIDToken = \<lparr>Subject = ''subject-1'', Claims = Inr exampleClaims\<rparr>"

definition exampleToken :: oauth2Token where
  "exampleToken = \<lparr>id_token = Some ''raw'', RefreshToken = ''refresh''\<rparr>"

definition groupsScope :: scopes where
  "groupsScope = \<lparr>OfflineAccess = False, scopes_Groups = True\<rparr>"

definition noIdentity :: identity where
  "noIdentity = \<lparr>UserID = [], Username = [], Email = [], EmailVerified = False,
     ConnectorData = [], Groups = []\<rparr>"

text \<open>
  A connector whose verifier accepts every raw ID token as the one of \<open>jane\<close>, with
  transitive lookup switched on, no hosted domains, no required groups and no directory
  service; \<open>directConnector\<close> is the same with transitive lookup switched off.
\<close>

definition exampleConnector :: googleConnector where
  "exampleConnector =
     \<lparr>verifier = (\<lambda>rawIDToken. Inr exampleIDToken),
      hostedDomains = [], domain = ''example.com'', groups = [],
      fetchTransitiveGroupMembership = True, adminSrv = None\<rparr>"

definition directConnector :: googleConnector where
  "directConnector = exampleConnector\<lparr>fetchTransitiveGroupMembership := False\<rparr>"

text \<open>
  Connectors with the service of a directory: \<open>allowListConnector\<close> looks up transitively and
  requires one of the groups \<open>b\<close> and \<open>d\<close>; \<open>directLookupConnector\<close> looks up direct
  memberships only and requires no group.
\<close>

definition allowListConnector :: "directory \<Rightarrow> googleConnector" where
  "allowListConnector D =
     exampleConnector\<lparr>groups := [''b'', ''d''], adminSrv := Some (directoryService D)\<rparr>"

definition directLookupConnector :: "directory \<Rightarrow> googleConnector" where
  "directLookupConnector D = directConnector\<lparr>adminSrv := Some (directoryService D)\<rparr>"

text \<open>
  \<open>jane\<close> is a member of \<open>a\<close> and, on a second page, of \<open>b\<close>; \<open>a\<close> and \<open>b\<close> are both members
  of \<open>c\<close>; \<open>c\<close> is a member of \<open>a\<close> and of itself.
\<close>

definition nestedDirectory :: directory where
  "nestedDirectory =
     [(''jane'', [[''a''], [''b'']]), (''a'', [[''c'']]), (''b'', [[''c'']]), (''c'', [[''a'', ''c'']])]"

text \<open>The group \<open>a\<close> lists itself as its only group.\<close>

definition selfLoopDirectory :: directory where
  "selfLoopDirectory = [(''a'', [[''a'']])]"

text \<open>\<open>jane\<close> is a direct member of \<open>a\<close> and, on a second page, of \<open>b\<close>.\<close>

definition twoPageDirectory :: directory where
  "twoPageDirectory = [(''jane'', [[''a''], [''b'']])]"

text \<open>
  \<open>jane\<close> is a direct member of \<open>a\<close> and, on a second page, of \<open>b\<close>; \<open>a\<close> is a member of \<open>c\<close>
  and \<open>b\<close> of \<open>d\<close>.
\<close>

definition pagedSeedsDirectory :: directory where
  "pagedSeedsDirectory = [(''jane'', [[''a''], [''b'']]), (''a'', [[''c'']]), (''b'', [[''d'']])]"

text \<open>\<open>jane\<close> is a direct member of \<open>a\<close> and \<open>b\<close>, and \<open>b\<close> is a member of \<open>a\<close>.\<close>

definition seedDirectory :: directory where
  "seedDirectory = [(''jane'', [[''a'', ''b'']]), (''b'', [[''a'']])]"


text \<open>The second page of \<open>jane\<close> repeats the group of the first.\<close>

definition repeatingDirectory :: directory where
  "repeatingDirectory = [(''jane'', [[''a''], [''a'', ''b'']])]"

text \<open>\<open>jane\<close> is a member of \<open>a\<close>, \<open>b\<close> and \<open>c\<close>, and in the second directory of \<open>a\<close> and \<open>c\<close>.\<close>

definition flatDirectory :: directory where
  "flatDirectory = [(''jane'', [[''a'', ''b'', ''c'']])]"

definition outsideDirectory :: directory where
  "outsideDirectory = [(''jane'', [[''a'', ''c'']])]"


subsection \<open>Invariants of the loops\<close>

text \<open>
  What any successful run of the loops does to \<^verbatim>\<open>userGroups\<close> and the checked set: it
  appends groups that were not checked before, each once, and checks exactly those.
\<close>

definition fresh :: "string list \<Rightarrow> string set \<Rightarrow> string list \<Rightarrow> string set \<Rightarrow> bool" where
  "fresh userGroups checked userGroups' checked' =
     (\<exists>new. userGroups' = userGroups @ new \<and> checked' = checked \<union> set new
        \<and> distinct new \<and> set new \<inter> checked = {})"

text \<open>
  How the requests sent and the result are related. \<open>requestFails\<close> holds for a request the
  service answers with an error. A result without an error means that no request of the
  run failed; a result with an error carries no groups, the failed request is the last one
  sent, no request before it failed, and the error message ends with the message of the
  service.
\<close>

definition requestFails :: "adminService \<Rightarrow> string \<Rightarrow> string \<times> string \<Rightarrow> bool" where
  "requestFails srv dn = (\<lambda>(userKey, tok). isl (srv dn userKey tok))"

definition propagates ::
  "adminService \<Rightarrow> string \<Rightarrow> (string \<times> string) list \<Rightarrow> string list \<Rightarrow> string option \<Rightarrow> bool" where
  "propagates srv dn new gs err =
    (case err of
       None \<Rightarrow> \<not> list_ex (requestFails srv dn) new
     | Some e \<Rightarrow> gs = [] \<and> new \<noteq> [] \<and> \<not> list_ex (requestFails srv dn) (butlast new)
         \<and> (\<exists>msg pre. srv dn (fst (last new)) (snd (last new)) = Inl msg \<and> e = pre @ msg))"

definition accounted ::
  "adminService \<Rightarrow> string \<Rightarrow> (string \<times> string) list \<Rightarrow> string list \<Rightarrow> string option
     \<Rightarrow> (string \<times> string) list \<Rightarrow> bool" where
  "accounted srv dn reqs gs err reqs' = (\<exists>new. reqs' = reqs @ new \<and> propagates srv dn new gs err)"

text \<open>
  The same for a run that may still be pending: as long as a call has not returned, none of
  the requests it has sent has failed. \<open>requestsOf\<close> are the requests a run has sent.
\<close>

definition accountedRun ::
  "adminService \<Rightarrow> string \<Rightarrow> (string \<times> string) list
     \<Rightarrow> ((string \<times> string) list, string list \<times> string option \<times> (string \<times> string) list) run
     \<Rightarrow> bool" where
  "accountedRun srv dn reqs r =
    (case r of
       Pending reqs' \<Rightarrow> accounted srv dn reqs [] None reqs'
     | Returned (gs, err, reqs') \<Rightarrow> accounted srv dn reqs gs err reqs')"


subsection \<open>Paginated answers of an arbitrary service\<close>

text \<open>
  \<open>servesPages srv dn userKey tok pages\<close>: asked for the groups of \<open>userKey\<close> with token
  \<open>tok\<close>, the service answers with the first of \<open>pages\<close>, and continues with the next one
  under the token it returned; the token of the last page, and only that one, is empty.
  \<open>pageRequests\<close> are the requests that walk through these pages.
\<close>

fun servesPages :: "adminService \<Rightarrow> string \<Rightarrow> string \<Rightarrow> string \<Rightarrow> groupsPage list \<Rightarrow> bool" where
  "servesPages srv dn userKey tok [] = False"
| "servesPages srv dn userKey tok [(gs, nextPageToken)] =
     (srv dn userKey tok = Inr (gs, nextPageToken) \<and> nextPageToken = [])"
| "servesPages srv dn userKey tok ((gs, nextPageToken) # page # pages) =
     (srv dn userKey tok = Inr (gs, nextPageToken) \<and> nextPageToken \<noteq> []
       \<and> servesPages srv dn userKey nextPageToken (page # pages))"

definition pageRequests :: "string \<Rightarrow> string \<Rightarrow> groupsPage list \<Rightarrow> (string \<times> string) list" where
  "pageRequests userKey tok pages = map (Pair userKey) (tok # butlast (map snd pages))"

text \<open>
  \<open>accepted c token idTok cl\<close>: the part of \<^verbatim>\<open>createIdentity\<close> before the group lookup
  succeeds, with the verified token \<open>idTok\<close> and the claims \<open>cl\<close>.
\<close>

definition accepted :: "googleConnector \<Rightarrow> oauth2Token \<Rightarrow> idToken \<Rightarrow> claims \<Rightarrow> bool" where
  "accepted c token idTok cl =
     ((\<exists>rawIDToken. id_token token = Some rawIDToken \<and> verifier c rawIDToken = Inr idTok)
      \<and> Claims idTok = Inr cl
      \<and> (hostedDomains c = [] \<or> HostedDomain cl \<in> set (hostedDomains c)))"


section \<open>Sequential transitive expansion\<close>

subsection \<open>The directory service of a directory\<close>

lemma fold_max_ge: "(a::nat) \<le> fold max xs a"
  by (induction xs arbitrary: a) (auto intro: order_trans[OF max.cobounded2])

lemma fold_max_mem: "(x::nat) \<in> set xs \<Longrightarrow> x \<le> fold max xs a"
proof (induction xs arbitrary: a)
  case Nil then show ?case by simp
next
  case (Cons y ys)
  show ?case
  proof (cases "x = y")
    case True
    have "y \<le> max y a" by simp
    also have "\<dots> \<le> fold max ys (max y a)" by (rule fold_max_ge)
    finally show ?thesis using True by simp
  next
    case False
    with Cons show ?thesis by simp
  qed
qed

lemma pagesOf_nonempty: "pagesOf D m \<noteq> []"
  by (simp add: pagesOf_def split: option.splits)

lemma pagesOf_le_maxPages: "length (pagesOf D m) \<le> maxPages D"
proof (cases "map_of D m")
  case None
  then show ?thesis using fold_max_ge[of 1 "map (\<lambda>(m, ps). length ps) D"]
    by (simp add: pagesOf_def maxPages_def)
next
  case (Some ps)
  then have "(m, ps) \<in> set D" by (rule map_of_SomeD)
  then have "length ps \<in> set (map (\<lambda>(m, ps). length ps) D)" by force
  then have "length ps \<le> maxPages D" unfolding maxPages_def by (rule fold_max_mem)
  moreover have "1 \<le> maxPages D" unfolding maxPages_def by (rule fold_max_ge)
  ultimately show ?thesis using Some by (simp add: pagesOf_def)
qed

lemma pagesOf_allGroups: "set (concat (pagesOf D m)) \<subseteq> set (allGroups D)"
proof (cases "map_of D m")
  case None
  then show ?thesis by (simp add: pagesOf_def)
next
  case (Some ps)
  then have "(m, ps) \<in> set D" by (rule map_of_SomeD)
  then have "set (concat ps) \<subseteq> set (allGroups D)"
    by (force simp: allGroups_def)
  then show ?thesis using Some by (simp add: pagesOf_def)
qed

lemma directoryService_page:
  "length tok < length (pagesOf D m) \<Longrightarrow>
   directoryService D dn m tok =
     Inr (pagesOf D m ! length tok,
          if Suc (length tok) < length (pagesOf D m) then pageTokenOf (Suc (length tok)) else [])"
  by (simp add: directoryService_def Let_def)

lemma pageTokenOf_Suc: "pageTokenOf (Suc i) \<noteq> []" "length (pageTokenOf i) = i"
  by (simp_all add: pageTokenOf_def)

subsection \<open>Composing expansions\<close>

lemma expandedI:
  "r = Returned (ug @ new, None, (checked \<union> set new, reqs')) \<Longrightarrow> distinct new \<Longrightarrow>
   set new \<inter> checked = {} \<Longrightarrow> set new \<subseteq> (memberOf D)\<^sup>* `` S \<Longrightarrow>
   (\<forall>x\<in>set new. memberOf D `` {x} \<subseteq> checked \<union> set new) \<Longrightarrow> S \<subseteq> checked \<union> set new \<Longrightarrow>
   expanded D S ug checked r"
  unfolding expanded_def by blast

lemma expandedE:
  assumes "expanded D S ug checked r"
  obtains new reqs' where "r = Returned (ug @ new, None, (checked \<union> set new, reqs'))" "distinct new"
   "set new \<inter> checked = {}" "set new \<subseteq> (memberOf D)\<^sup>* `` S"
   "\<forall>x\<in>set new. memberOf D `` {x} \<subseteq> checked \<union> set new" "S \<subseteq> checked \<union> set new"
  using assms unfolding expanded_def by blast

lemma expanded_checked:
  assumes "expanded D S ug checked r" "g \<in> checked"
  shows "expanded D (insert g S) ug checked r"
proof -
  from assms(1) obtain new reqs' where *: "r = Returned (ug @ new, None, (checked \<union> set new, reqs'))" "distinct new"
   "set new \<inter> checked = {}" "set new \<subseteq> (memberOf D)\<^sup>* `` S"
   "\<forall>x\<in>set new. memberOf D `` {x} \<subseteq> checked \<union> set new" "S \<subseteq> checked \<union> set new"
    by (rule expandedE) blast
  have "(memberOf D)\<^sup>* `` S \<subseteq> (memberOf D)\<^sup>* `` insert g S" by blast
  with *(4) have 4: "set new \<subseteq> (memberOf D)\<^sup>* `` insert g S" by (rule subset_trans)
  have 6: "insert g S \<subseteq> checked \<union> set new" using *(6) assms(2) by blast
  show ?thesis by (rule expandedI[OF *(1) *(2) *(3) 4 *(5) 6])
qed

lemma rtrancl_Image_step: "(R\<^sup>*) `` (R `` {g}) \<subseteq> (R\<^sup>*) `` {g}"
  by (auto intro: converse_rtrancl_into_rtrancl)

lemma expanded_recurse:
  assumes g: "g \<notin> checked"
    and sub: "expanded D (memberOf D `` {g}) [] (insert g checked) (Returned (tg, None, st1))"
    and rest: "expanded D S (ug @ [g] @ tg) (fst st1) r"
  shows "expanded D (insert g S) ug checked r"
proof -
  from sub obtain tg' reqs1 where a: "Returned (tg, None, st1) = Returned ([] @ tg', None, (insert g checked \<union> set tg', reqs1))"
    and tg': "distinct tg'" "set tg' \<inter> insert g checked = {}"
      "set tg' \<subseteq> (memberOf D)\<^sup>* `` (memberOf D `` {g})"
      "\<forall>x\<in>set tg'. memberOf D `` {x} \<subseteq> insert g checked \<union> set tg'"
      "memberOf D `` {g} \<subseteq> insert g checked \<union> set tg'"
    by (rule expandedE) blast
  from a have st1: "st1 = (insert g checked \<union> set tg, reqs1)" and [simp]: "tg' = tg" by simp_all
  note tg = tg'[simplified]
  from rest st1 have "expanded D S (ug @ [g] @ tg) (insert g checked \<union> set tg) r" by simp
  then obtain new reqs' where r: "r = Returned ((ug @ [g] @ tg) @ new, None, ((insert g checked \<union> set tg) \<union> set new, reqs'))"
    and new: "distinct new" "set new \<inter> (insert g checked \<union> set tg) = {}"
      "set new \<subseteq> (memberOf D)\<^sup>* `` S"
      "\<forall>x\<in>set new. memberOf D `` {x} \<subseteq> (insert g checked \<union> set tg) \<union> set new"
      "S \<subseteq> (insert g checked \<union> set tg) \<union> set new"
    by (rule expandedE) blast
  let ?all = "g # tg @ new"
  have eq: "(insert g checked \<union> set tg) \<union> set new = checked \<union> set ?all" by auto
  have 1: "r = Returned (ug @ ?all, None, (checked \<union> set ?all, reqs'))"
    unfolding r eq by simp
  have 2: "distinct ?all" using tg(1,2) new(1,2) g by auto
  have 3: "set ?all \<inter> checked = {}" using tg(2) new(2) g by auto
  have "set tg \<subseteq> (memberOf D)\<^sup>* `` {g}"
    using tg(3) rtrancl_Image_step[of "memberOf D" g] by (rule subset_trans)
  moreover have "(memberOf D)\<^sup>* `` {g} \<subseteq> (memberOf D)\<^sup>* `` insert g S"
    "(memberOf D)\<^sup>* `` S \<subseteq> (memberOf D)\<^sup>* `` insert g S" "g \<in> (memberOf D)\<^sup>* `` insert g S" by blast+
  ultimately have 4: "set ?all \<subseteq> (memberOf D)\<^sup>* `` insert g S"
    using new(3) by (simp add: subset_iff)
  have 5: "\<forall>x\<in>set ?all. memberOf D `` {x} \<subseteq> checked \<union> set ?all"
    unfolding eq[symmetric] using tg(4,5) new(4) by (simp add: subset_iff) blast
  have 6: "insert g S \<subseteq> checked \<union> set ?all" unfolding eq[symmetric] using new(5) by blast
  show ?thesis by (rule expandedI[OF 1 2 3 4 5 6])
qed

lemma expanded_seq:
  assumes first: "expanded D S1 ug checked (Returned (ug1, None, st1))"
    and rest: "expanded D S2 ug1 (fst st1) r"
  shows "expanded D (S1 \<union> S2) ug checked r"
proof -
  from first obtain new1 reqs1 where a: "Returned (ug1, None, st1) = Returned (ug @ new1, None, (checked \<union> set new1, reqs1))"
    and n1: "distinct new1" "set new1 \<inter> checked = {}"
      "set new1 \<subseteq> (memberOf D)\<^sup>* `` S1"
      "\<forall>x\<in>set new1. memberOf D `` {x} \<subseteq> checked \<union> set new1"
      "S1 \<subseteq> checked \<union> set new1"
    by (rule expandedE) blast
  from a have st1: "st1 = (checked \<union> set new1, reqs1)" and ug1: "ug1 = ug @ new1" by simp_all
  from rest st1 ug1 have "expanded D S2 (ug @ new1) (checked \<union> set new1) r" by simp
  then obtain new reqs' where r: "r = Returned ((ug @ new1) @ new, None, ((checked \<union> set new1) \<union> set new, reqs'))"
    and new: "distinct new" "set new \<inter> (checked \<union> set new1) = {}"
      "set new \<subseteq> (memberOf D)\<^sup>* `` S2"
      "\<forall>x\<in>set new. memberOf D `` {x} \<subseteq> (checked \<union> set new1) \<union> set new"
      "S2 \<subseteq> (checked \<union> set new1) \<union> set new"
    by (rule expandedE) blast
  let ?all = "new1 @ new"
  have eq: "(checked \<union> set new1) \<union> set new = checked \<union> set ?all" by auto
  have 1: "r = Returned (ug @ ?all, None, (checked \<union> set ?all, reqs'))"
    unfolding r eq by simp
  have 2: "distinct ?all" using n1(1) new(1,2) by auto
  have 3: "set ?all \<inter> checked = {}" using n1(2) new(2) by auto
  have "(memberOf D)\<^sup>* `` S1 \<subseteq> (memberOf D)\<^sup>* `` (S1 \<union> S2)"
    "(memberOf D)\<^sup>* `` S2 \<subseteq> (memberOf D)\<^sup>* `` (S1 \<union> S2)" by blast+
  then have 4: "set ?all \<subseteq> (memberOf D)\<^sup>* `` (S1 \<union> S2)"
    using n1(3) new(3) by (simp add: subset_iff)
  have 5: "\<forall>x\<in>set ?all. memberOf D `` {x} \<subseteq> checked \<union> set ?all"
    unfolding eq[symmetric] using n1(4) new(4) by (simp add: subset_iff) blast
  have 6: "S1 \<union> S2 \<subseteq> checked \<union> set ?all" unfolding eq[symmetric] using n1(5) new(5) by blast
  show ?thesis by (rule expandedI[OF 1 2 3 4 5 6])
qed

lemma expanded_Nil: "expanded D {} ug checked (Returned (ug, None, (checked, reqs)))"
  by (rule expandedI[where new = "[]"]) simp_all

lemma unchecked_mono:
  "finite N \<Longrightarrow> checked \<subseteq> checked' \<Longrightarrow> (P::nat) * card (N - checked') \<le> P * card (N - checked)"
  by (intro mult_le_mono2 card_mono) auto

lemma unchecked_insert:
  assumes "finite N" "g \<in> N" "g \<notin> checked"
  shows "card (N - checked) = Suc (card (N - insert g checked))"
proof -
  have "N - checked = insert g (N - insert g checked)" using assms by auto
  moreover have "g \<notin> N - insert g checked" by simp
  moreover have "finite (N - insert g checked)" using assms by simp
  ultimately show ?thesis by (metis card_insert_disjoint)
qed

lemma range_expanded:
  assumes tr: "fetchTransitiveGroupMembership c"
    and pages: "\<And>g checked reqs.
      length (pagesOf D g) + maxPages D * card (set (allGroups D) - checked) \<le> n \<Longrightarrow>
      expanded D (memberOf D `` {g}) [] checked
        (getGroups_pages n (directoryService D) c g [] [] (checked, reqs))"
  shows "set grs \<subseteq> set (allGroups D) \<Longrightarrow>
    maxPages D * card (set (allGroups D) - checked) \<le> n \<Longrightarrow>
    expanded D (set grs) ug checked
      (getGroups_range n (directoryService D) c grs ug (checked, reqs))"
proof (induction grs arbitrary: ug checked reqs)
  case Nil
  show ?case by (simp add: expanded_Nil)
next
  case (Cons g rest)
  have rest: "set rest \<subseteq> set (allGroups D)" and gN: "g \<in> set (allGroups D)"
    using Cons.prems(1) by simp_all
  show ?case
  proof (cases "g \<in> checked")
    case True
    have "expanded D (set rest) ug checked
            (getGroups_range n (directoryService D) c rest ug (checked, reqs))"
      by (rule Cons.IH[OF rest Cons.prems(2)])
    then have "expanded D (insert g (set rest)) ug checked
            (getGroups_range n (directoryService D) c rest ug (checked, reqs))"
      using True by (rule expanded_checked)
    then show ?thesis using True by simp
  next
    case False
    let ?sub = "getGroups_pages n (directoryService D) c g [] [] (insert g checked, reqs)"
    have card: "card (set (allGroups D) - checked) = Suc (card (set (allGroups D) - insert g checked))"
      using gN False by (intro unchecked_insert) simp_all
    have "length (pagesOf D g) + maxPages D * card (set (allGroups D) - insert g checked)
            \<le> maxPages D * card (set (allGroups D) - checked)"
      unfolding card using pagesOf_le_maxPages[of D g] by simp
    then have fuel: "length (pagesOf D g) + maxPages D * card (set (allGroups D) - insert g checked) \<le> n"
      using Cons.prems(2) by (rule order_trans)
    have sub: "expanded D (memberOf D `` {g}) [] (insert g checked) ?sub"
      by (rule pages[OF fuel])
    then obtain tg reqs1 where subeq: "?sub = Returned ([] @ tg, None, (insert g checked \<union> set tg, reqs1))"
      by (rule expandedE) blast
    have "maxPages D * card (set (allGroups D) - (insert g checked \<union> set tg))
            \<le> maxPages D * card (set (allGroups D) - checked)"
      by (rule unchecked_mono) auto
    then have fuel': "maxPages D * card (set (allGroups D) - (insert g checked \<union> set tg)) \<le> n"
      using Cons.prems(2) by (rule order_trans)
    have "expanded D (set rest) (ug @ [g] @ tg) (insert g checked \<union> set tg)
            (getGroups_range n (directoryService D) c rest (ug @ [g] @ tg) (insert g checked \<union> set tg, reqs1))"
      by (rule Cons.IH[OF rest fuel'])
    then have "expanded D (set rest) (ug @ [g] @ tg) (fst (insert g checked \<union> set tg, reqs1))
            (getGroups_range n (directoryService D) c rest (ug @ [g] @ tg) (insert g checked \<union> set tg, reqs1))"
      by simp
    with False sub[unfolded subeq append_Nil]
    have "expanded D (insert g (set rest)) ug checked
            (getGroups_range n (directoryService D) c rest (ug @ [g] @ tg) (insert g checked \<union> set tg, reqs1))"
      by (rule expanded_recurse)
    then show ?thesis using False tr subeq by simp
  qed
qed

subsection \<open>The page loop\<close>

lemma memberOf_Image: "memberOf D `` {m} = set (concat (pagesOf D m))"
  by (auto simp: memberOf_def)

lemma concat_drop_page:
  "i < length ps \<Longrightarrow> set (concat (drop i ps)) = set (ps ! i) \<union> set (concat (drop (Suc i) ps))"
  by (simp add: Cons_nth_drop_Suc[symmetric])

lemma page_in_allGroups:
  assumes "i < length (pagesOf D m)"
  shows "set (pagesOf D m ! i) \<subseteq> set (allGroups D)"
proof -
  have "set (pagesOf D m ! i) \<subseteq> set (concat (pagesOf D m))"
    using nth_mem[OF assms] by auto
  then show ?thesis using pagesOf_allGroups by (rule subset_trans)
qed

lemma pages_expanded:
  assumes tr: "fetchTransitiveGroupMembership c"
  shows "length tok < length (pagesOf D m) \<Longrightarrow>
    length (pagesOf D m) - length tok + maxPages D * card (set (allGroups D) - checked) \<le> n \<Longrightarrow>
    expanded D (set (concat (drop (length tok) (pagesOf D m)))) ug checked
      (getGroups_pages n (directoryService D) c m tok ug (checked, reqs))"
proof (induction n arbitrary: m tok ug checked reqs)
  case 0
  then show ?case by simp
next
  case (Suc n)
  let ?ps = "pagesOf D m" and ?i = "length tok"
  let ?N = "set (allGroups D)"
  let ?reqs = "reqs @ [(m, tok)]"
  have srv: "directoryService D (domain c) m tok =
      Inr (?ps ! ?i, if Suc ?i < length ?ps then pageTokenOf (Suc ?i) else [])"
    using Suc.prems(1) by (rule directoryService_page)
  have sub: "expanded D (memberOf D `` {g}) [] ch
        (getGroups_pages n (directoryService D) c g [] [] (ch, rq))"
    if "length (pagesOf D g) + maxPages D * card (?N - ch) \<le> n" for g ch rq
  proof -
    have "length [] < length (pagesOf D g)" using pagesOf_nonempty[of D g] by simp
    moreover have "length (pagesOf D g) - length ([]::string) + maxPages D * card (?N - ch) \<le> n"
      using that by simp
    ultimately have "expanded D (set (concat (drop (length ([]::string)) (pagesOf D g)))) [] ch
        (getGroups_pages n (directoryService D) c g [] [] (ch, rq))"
      by (rule Suc.IH)
    then show ?thesis by (simp add: memberOf_Image)
  qed
  have fuel_range: "maxPages D * card (?N - checked) \<le> n"
    using Suc.prems by linarith
  let ?range = "getGroups_range n (directoryService D) c (?ps ! ?i) ug (checked, ?reqs)"
  have range: "expanded D (set (?ps ! ?i)) ug checked ?range"
    using tr sub page_in_allGroups[OF Suc.prems(1)] fuel_range by (rule range_expanded)
  then obtain new1 reqs1 where req: "?range = Returned (ug @ new1, None, (checked \<union> set new1, reqs1))"
    by (rule expandedE) blast
  show ?case
  proof (cases "Suc ?i < length ?ps")
    case False
    then have "drop (Suc ?i) ?ps = []" by simp
    then have "set (concat (drop ?i ?ps)) = set (?ps ! ?i)"
      using concat_drop_page[OF Suc.prems(1)] by simp
    moreover have "getGroups_pages (Suc n) (directoryService D) c m tok ug (checked, reqs) = ?range"
      using False srv req by simp
    ultimately show ?thesis using range by simp
  next
    case True
    let ?tok = "pageTokenOf (Suc ?i)"
    have len: "length ?tok = Suc ?i" by (rule pageTokenOf_Suc)
    have 1: "length ?tok < length ?ps" using True len by simp
    have "maxPages D * card (?N - (checked \<union> set new1)) \<le> maxPages D * card (?N - checked)"
      by (rule unchecked_mono) auto
    then have 2: "length ?ps - length ?tok + maxPages D * card (?N - (checked \<union> set new1)) \<le> n"
      using Suc.prems len by linarith
    let ?next = "getGroups_pages n (directoryService D) c m ?tok (ug @ new1) (checked \<union> set new1, reqs1)"
    have "expanded D (set (concat (drop (length ?tok) ?ps))) (ug @ new1) (checked \<union> set new1) ?next"
      using 1 2 by (rule Suc.IH)
    then have "expanded D (set (concat (drop (Suc ?i) ?ps))) (ug @ new1)
        (fst (checked \<union> set new1, reqs1)) ?next"
      using len by simp
    with range[unfolded req]
    have "expanded D (set (?ps ! ?i) \<union> set (concat (drop (Suc ?i) ?ps))) ug checked ?next"
      by (rule expanded_seq)
    then have "expanded D (set (concat (drop ?i ?ps))) ug checked ?next"
      using concat_drop_page[OF Suc.prems(1)] by simp
    moreover have "getGroups_pages (Suc n) (directoryService D) c m tok ug (checked, reqs) = ?next"
      using True srv req pageTokenOf_Suc(1)[of ?i] by simp
    ultimately show ?thesis by simp
  qed
qed

lemma closed_reach:
  assumes start: "R `` {m} \<subseteq> V" and closed: "\<forall>x\<in>V. R `` {x} \<subseteq> V"
  shows "R\<^sup>+ `` {m} \<subseteq> V"
proof
  fix x assume "x \<in> R\<^sup>+ `` {m}"
  then have "(m, x) \<in> R\<^sup>+" by simp
  then show "x \<in> V"
  proof (induction rule: trancl_induct)
    case (base y) then show ?case using start by blast
  next
    case (step y z) then show ?case using closed by blast
  qed
qed

lemma getGroups_expanded:
  assumes tr: "fetchTransitiveGroupMembership c" and fuel: "fuelFor D \<le> n"
  shows "\<exists>gs reqs'. getGroups n (directoryService D) c root ({}, reqs) = Returned (gs, None, (set gs, reqs'))
           \<and> distinct gs \<and> set gs = reachableGroups D root"
proof -
  let ?N = "set (allGroups D)"
  have "card ?N = length (allGroups D)" 
    unfolding allGroups_def by (rule distinct_card) (rule distinct_remdups)
  then have "fuelFor D = maxPages D + maxPages D * card (?N - {})"
    by (simp add: fuelFor_def)
  then have "length (pagesOf D root) - length ([]::string) + maxPages D * card (?N - {}) \<le> n"
    using fuel pagesOf_le_maxPages[of D root] by simp
  moreover have "length ([]::string) < length (pagesOf D root)" using pagesOf_nonempty[of D root] by simp
  ultimately have "expanded D (set (concat (drop (length ([]::string)) (pagesOf D root)))) [] {}
      (getGroups_pages n (directoryService D) c root [] [] ({}, reqs))"
    using pages_expanded[OF tr] by blast
  then have "expanded D (memberOf D `` {root}) [] {} (getGroups n (directoryService D) c root ({}, reqs))"
    by (simp add: memberOf_Image getGroups_def)
  then obtain gs reqs' where r: "getGroups n (directoryService D) c root ({}, reqs) = Returned ([] @ gs, None, ({} \<union> set gs, reqs'))"
    and gs: "distinct gs" "set gs \<subseteq> (memberOf D)\<^sup>* `` (memberOf D `` {root})"
      "\<forall>x\<in>set gs. memberOf D `` {x} \<subseteq> {} \<union> set gs" "memberOf D `` {root} \<subseteq> {} \<union> set gs"
    by (rule expandedE) blast
  have "(memberOf D)\<^sup>+ `` {root} \<subseteq> set gs"
    using gs(3,4) by (intro closed_reach) simp_all
  moreover have "(memberOf D)\<^sup>* `` (memberOf D `` {root}) \<subseteq> (memberOf D)\<^sup>+ `` {root}"
    by (auto intro: rtrancl_into_trancl2)
  ultimately have "set gs = reachableGroups D root"
    using gs(2) unfolding reachableGroups_def by blast
  then show ?thesis using r gs(1) by simp
qed

section \<open>Every service, both modes\<close>

subsection \<open>New groups are appended once\<close>

lemma fresh_refl: "fresh ug checked ug checked"
  by (simp add: fresh_def)

lemma fresh_step: "g \<notin> checked \<Longrightarrow> fresh ug checked (ug @ [g]) (insert g checked)"
  unfolding fresh_def by (intro exI[of _ "[g]"]) simp

lemma fresh_trans:
  assumes "fresh ug checked ug1 checked1" "fresh ug1 checked1 ug2 checked2"
  shows "fresh ug checked ug2 checked2"
proof -
  from assms(1) obtain new1 where 1: "ug1 = ug @ new1" "checked1 = checked \<union> set new1"
    "distinct new1" "set new1 \<inter> checked = {}" unfolding fresh_def by blast
  from assms(2) obtain new2 where 2: "ug2 = ug1 @ new2" "checked2 = checked1 \<union> set new2"
    "distinct new2" "set new2 \<inter> checked1 = {}" unfolding fresh_def by blast
  show ?thesis unfolding fresh_def
    using 1 2 by (intro exI[of _ "new1 @ new2"]) auto
qed

lemma fresh_append: "fresh [] checked tg checked' \<Longrightarrow> fresh ug checked (ug @ tg) checked'"
  unfolding fresh_def by auto


lemma getGroups_fresh:
  "getGroups_pages n srv c m tok ug st = Returned (gs, None, st') \<Longrightarrow> fresh ug (fst st) gs (fst st')"
  "getGroups_range n srv c grs ug st = Returned (gs, None, st') \<Longrightarrow> fresh ug (fst st) gs (fst st')"
proof (induction n srv c m tok ug st and n srv c grs ug st arbitrary: gs st' and gs st'
    rule: getGroups_pages_getGroups_range.induct)
  case (1 srv c email pageToken userGroups st)
  then show ?case by simp
next
  case (2 n srv c email pageToken userGroups checked reqs)
  from "2.prems" obtain groupsList nextPageToken where
    srv: "srv (domain c) email pageToken = Inr (groupsList, nextPageToken)"
    by (auto split: sum.splits)
  from "2.prems" srv obtain ug1 st1 where
    range: "getGroups_range n srv c groupsList userGroups (checked, reqs @ [(email, pageToken)]) = Returned (ug1, None, st1)"
    by (auto split: run.splits option.splits)
  have f1: "fresh userGroups checked ug1 (fst st1)"
    using "2.IH"(1)[OF srv refl range] by simp
  show ?case
  proof (cases "nextPageToken = []")
    case True
    with "2.prems" srv range f1 show ?thesis by simp
  next
    case False
    with "2.prems" srv range
    have "getGroups_pages n srv c email nextPageToken ug1 st1 = Returned (gs, None, st')" by simp
    from "2.IH"(2)[OF srv refl range refl refl refl False this] f1
    show ?thesis by (auto intro: fresh_trans)
  qed
next
  case (3 n srv c userGroups st)
  then show ?case by (simp add: fresh_refl)
next
  case (4 n srv c grp rest userGroups checked reqs)
  show ?case
  proof (cases "grp \<in> checked")
    case True
    with "4.prems" "4.IH"(1) show ?thesis by simp
  next
    case False
    note step = fresh_step[OF False, of userGroups]
    show ?thesis
    proof (cases "fetchTransitiveGroupMembership c")
      case nontr: False
      with False "4.prems"
      have "getGroups_range n srv c rest (userGroups @ [grp]) (insert grp checked, reqs) = Returned (gs, None, st')"
        by simp
      from "4.IH"(2)[OF False _ this] nontr step show ?thesis
        by (auto intro: fresh_trans)
    next
      case tr: True
      from "4.prems" False tr obtain tg st1 where
        sub: "getGroups_pages n srv c grp [] [] (insert grp checked, reqs) = Returned (tg, None, st1)"
        by (auto split: run.splits option.splits)
      with "4.prems" False tr
      have rest: "getGroups_range n srv c rest (userGroups @ [grp] @ tg) st1 = Returned (gs, None, st')"
        by simp
      have "fresh [] (insert grp checked) tg (fst st1)"
        using "4.IH"(3)[OF False _ sub] tr by simp
      then have "fresh (userGroups @ [grp]) (insert grp checked) ((userGroups @ [grp]) @ tg) (fst st1)"
        by (rule fresh_append)
      with step have "fresh userGroups checked (userGroups @ [grp] @ tg) (fst st1)"
        by (auto intro: fresh_trans)
      moreover have "fresh (userGroups @ [grp] @ tg) (fst st1) gs (fst st')"
        using "4.IH"(4)[OF False _ sub refl refl refl rest] tr by simp
      ultimately show ?thesis by (auto intro: fresh_trans)
    qed
  qed
qed

subsection \<open>Requests and errors\<close>







lemma withoutChecked_simps [simp]:
  "withoutChecked (Pending st) = Pending (snd st)"
  "withoutChecked (Returned (gs, err, st)) = Returned (gs, err, snd st)"
  by (simp_all add: withoutChecked_def case_prod_beta)

lemma accountedRun_simps [simp]:
  "accountedRun srv dn reqs (Pending reqs') = accounted srv dn reqs [] None reqs'"
  "accountedRun srv dn reqs (Returned (gs, err, reqs')) = accounted srv dn reqs gs err reqs'"
  by (simp_all add: accountedRun_def)

lemma accounted_None: "accounted srv dn reqs gs None reqs' \<Longrightarrow> accounted srv dn reqs gs' None reqs'"
  by (simp add: accounted_def propagates_def)








subsection \<open>Walking through the pages\<close>

lemma pageRequests_Cons:
  "pageRequests m tok ((gs, nxt) # page # pages) = (m, tok) # pageRequests m nxt (page # pages)"
  by (simp add: pageRequests_def)

lemma pageRequests_single: "pageRequests m tok [page] = [(m, tok)]"
  by (simp add: pageRequests_def)

lemma range_direct:
  assumes "\<not> fetchTransitiveGroupMembership c"
  shows "\<exists>new. getGroups_range n srv c grs ug (checked, reqs) = Returned (ug @ new, None, (checked \<union> set new, reqs))
           \<and> distinct new \<and> set new = set grs - checked"
proof (induction grs arbitrary: ug checked)
  case Nil
  show ?case by simp
next
  case (Cons g rest)
  show ?case
  proof (cases "g \<in> checked")
    case True
    from Cons.IH[of ug checked] obtain new where
      "getGroups_range n srv c rest ug (checked, reqs) = Returned (ug @ new, None, (checked \<union> set new, reqs))"
      "distinct new" "set new = set rest - checked" by blast
    with True show ?thesis by (intro exI[of _ new]) auto
  next
    case False
    from Cons.IH[of "ug @ [g]" "insert g checked"] obtain new where new:
      "getGroups_range n srv c rest (ug @ [g]) (insert g checked, reqs) =
         Returned ((ug @ [g]) @ new, None, (insert g checked \<union> set new, reqs))"
      "distinct new" "set new = set rest - insert g checked" by blast
    have "getGroups_range n srv c (g # rest) ug (checked, reqs) =
        Returned (ug @ (g # new), None, (checked \<union> set (g # new), reqs))"
      using False assms new(1) by simp
    moreover have "distinct (g # new)" using new(2,3) by simp
    moreover have "set (g # new) = set (g # rest) - checked" using new(3) False by auto
    ultimately show ?thesis by blast
  qed
qed

lemma pages_direct:
  assumes nontr: "\<not> fetchTransitiveGroupMembership c"
  shows "servesPages srv (domain c) m tok ps \<Longrightarrow> length ps \<le> n \<Longrightarrow>
    \<exists>new. getGroups_pages n srv c m tok ug (checked, reqs) =
        Returned (ug @ new, None, (checked \<union> set new, reqs @ pageRequests m tok ps))
      \<and> distinct new \<and> set new = set (concat (map fst ps)) - checked"
proof (induction srv "domain c" m tok ps arbitrary: n ug checked reqs rule: servesPages.induct)
  case (1 srv userKey tok)
  then show ?case by simp
next
  case (2 srv userKey tok gs nextPageToken)
  then obtain k where n: "n = Suc k" by (cases n) auto
  from "2.prems" have srv: "srv (domain c) userKey tok = Inr (gs, [])" by simp
  from range_direct[OF nontr, of k srv gs ug checked "reqs @ [(userKey, tok)]"] obtain new where new:
    "getGroups_range k srv c gs ug (checked, reqs @ [(userKey, tok)]) =
       Returned (ug @ new, None, (checked \<union> set new, reqs @ [(userKey, tok)]))"
    "distinct new" "set new = set gs - checked" by blast
  have "getGroups_pages n srv c userKey tok ug (checked, reqs) =
      Returned (ug @ new, None, (checked \<union> set new, reqs @ pageRequests userKey tok [(gs, nextPageToken)]))"
    using n srv new(1) by (simp add: pageRequests_single)
  then show ?case using new(2,3) by auto
next
  case (3 srv userKey tok gs nextPageToken page pages)
  then obtain k where n: "n = Suc k" by (cases n) auto
  from "3.prems" have srv: "srv (domain c) userKey tok = Inr (gs, nextPageToken)"
    and nxt: "nextPageToken \<noteq> []"
    and rest: "servesPages srv (domain c) userKey nextPageToken (page # pages)"
    and len: "length (page # pages) \<le> k"
    using n by simp_all
  from range_direct[OF nontr, of k srv gs ug checked "reqs @ [(userKey, tok)]"] obtain new1 where new1:
    "getGroups_range k srv c gs ug (checked, reqs @ [(userKey, tok)]) =
       Returned (ug @ new1, None, (checked \<union> set new1, reqs @ [(userKey, tok)]))"
    "distinct new1" "set new1 = set gs - checked" by blast
  from "3.hyps"[OF rest len, of "ug @ new1" "checked \<union> set new1" "reqs @ [(userKey, tok)]"]
  obtain new2 where new2:
    "getGroups_pages k srv c userKey nextPageToken (ug @ new1) (checked \<union> set new1, reqs @ [(userKey, tok)]) =
       Returned ((ug @ new1) @ new2, None,
         ((checked \<union> set new1) \<union> set new2, (reqs @ [(userKey, tok)]) @ pageRequests userKey nextPageToken (page # pages)))"
    "distinct new2" "set new2 = set (concat (map fst (page # pages))) - (checked \<union> set new1)" by blast
  have "getGroups_pages n srv c userKey tok ug (checked, reqs) =
      Returned (ug @ (new1 @ new2), None,
        (checked \<union> set (new1 @ new2), reqs @ pageRequests userKey tok ((gs, nextPageToken) # page # pages)))"
    using n srv nxt new1(1) new2(1) by (simp add: pageRequests_Cons Un_assoc)
  moreover have "distinct (new1 @ new2)" using new1(2) new2(2,3) by auto
  moreover have "set (new1 @ new2) = set (concat (map fst ((gs, nextPageToken) # page # pages))) - checked"
    using new1(3) new2(3) by auto
  ultimately show ?case by blast
qed





section \<open>createIdentity\<close>

lemma set_Filter: "set (Filter given required) = set given \<inter> set required"
  by (auto simp: Filter_def)

lemma Filter_Nil_iff: "Filter given required = [] \<longleftrightarrow> set given \<inter> set required = {}"
  by (auto simp: Filter_def filter_empty_conv)

lemma createIdentity_lookup:
  assumes acc: "accepted c token idTok cl" and sc: "scopes_Groups s" and srv: "adminSrv c = Some srv"
    and res: "resolveGroups n srv c (claims_Email cl) reqs = Returned (gs, None, reqs')"
  shows "createIdentity n c ident s token reqs =
    (if groups c \<noteq> [] then
       if Filter gs (groups c) = []
       then Returned (ident, Some (notInRequiredGroups (claims_Username cl)), reqs')
       else Returned (\<lparr>UserID = Subject idTok, Username = claims_Username cl,
               Email = claims_Email cl, EmailVerified = claims_EmailVerified cl,
               ConnectorData = RefreshToken token, Groups = Filter gs (groups c)\<rparr>, None, reqs')
     else Returned (\<lparr>UserID = Subject idTok, Username = claims_Username cl,
               Email = claims_Email cl, EmailVerified = claims_EmailVerified cl,
               ConnectorData = RefreshToken token, Groups = gs\<rparr>, None, reqs'))"
proof -
  from acc obtain rawIDToken where tok: "id_token token = Some rawIDToken"
    and ver: "verifier c rawIDToken = Inr idTok" and cl: "Claims idTok = Inr cl"
    and hd: "hostedDomains c = [] \<or> HostedDomain cl \<in> set (hostedDomains c)"
    unfolding accepted_def by blast
  show ?thesis
    unfolding createIdentity_def using tok ver cl hd sc srv res
    by (auto simp: Let_def)
qed

lemma accepted_example:
  "accepted (allowListConnector D) exampleToken exampleIDToken exampleClaims"
  by (simp add: accepted_def allowListConnector_def exampleConnector_def exampleToken_def
      exampleIDToken_def exampleClaims_def)

lemma accepted_example_any:
  "verifier c = verifier exampleConnector \<Longrightarrow> hostedDomains c = [] \<Longrightarrow>
   accepted c exampleToken exampleIDToken exampleClaims"
  by (simp add: accepted_def exampleConnector_def exampleToken_def
      exampleIDToken_def exampleClaims_def)

lemma resolveGroups_direct:
  assumes nontr: "\<not> fetchTransitiveGroupMembership c"
    and pages: "servesPages srv (domain c) email [] ps" and fuel: "length ps \<le> n"
  shows "\<exists>gs. resolveGroups n srv c email reqs = Returned (gs, None, reqs @ pageRequests email [] ps)
     \<and> distinct gs \<and> set gs = set (concat (map fst ps))"
proof -
  from pages_direct[OF nontr pages fuel, of "[]" "{}" reqs] obtain gs where
    "getGroups_pages n srv c email [] [] ({}, reqs) =
        Returned ([] @ gs, None, ({} \<union> set gs, reqs @ pageRequests email [] ps))"
    "distinct gs" "set gs = set (concat (map fst ps)) - {}"
    by blast
  then show ?thesis using nontr by (simp add: resolveGroups_def getGroups_def)
qed

section \<open>Sequential results have no duplicates\<close>

lemma getGroups_distinct:
  assumes "getGroups n srv c email ({}, reqs) = Returned (gs, None, st')"
  shows "distinct gs"
proof -
  from assms have "getGroups_pages n srv c email [] [] ({}, reqs) = Returned (gs, None, st')"
    by (simp add: getGroups_def)
  from getGroups_fresh(1)[OF this] show ?thesis by (auto simp: fresh_def)
qed

section \<open>The claims\<close>

text \<open>
  C1. For every directory (a finite membership graph with paginated listings, cycles,
  self-loops and groups with several parents included) and every root member key, the
  sequential expansion \<open>getGroups\<close> with transitive lookup switched on and an empty checked
  set returns, as soon as it is given \<open>fuelFor D\<close> nested steps: it returns no error, and
  its result lists exactly the groups reachable from the root, each of them once.
\<close>

theorem getGroups_transitive_reachable:
  assumes "fetchTransitiveGroupMembership c" and "fuelFor D \<le> n"
  shows "\<exists>gs st'. getGroups n (directoryService D) c root ({}, reqs) = Returned (gs, None, st')
           \<and> set gs = reachableGroups D root \<and> distinct gs"
proof -
  from getGroups_expanded[OF assms, of root reqs] obtain gs reqs'
    where "getGroups n (directoryService D) c root ({}, reqs) = Returned (gs, None, (set gs, reqs'))"
      and "distinct gs" and "set gs = reachableGroups D root"
    by blast
  then show ?thesis by blast
qed

theorem getGroups_transitive_reachable_witness:
  "fetchTransitiveGroupMembership exampleConnector \<and> fuelFor nestedDirectory \<le> 8
   \<and> getGroups 8 (directoryService nestedDirectory) exampleConnector ''jane'' ({}, []) =
       Returned ([''a'', ''c'', ''b''], None,
         ({''a'', ''b'', ''c''}, [(''jane'', []), (''a'', []), (''c'', []), (''jane'', ''p''), (''b'', [])]))
   \<and> reachableGroups nestedDirectory ''jane'' = {''a'', ''b'', ''c''}
   \<and> fuelFor selfLoopDirectory \<le> 2
   \<and> getGroups 2 (directoryService selfLoopDirectory) exampleConnector ''a'' ({}, []) =
       Returned ([''a''], None, ({''a''}, [(''a'', []), (''a'', [])]))
   \<and> reachableGroups selfLoopDirectory ''a'' = {''a''}"
proof -
  have tr: "fetchTransitiveGroupMembership exampleConnector"
    by (simp add: exampleConnector_def)
  have fuel: "fuelFor nestedDirectory \<le> 8"
    by code_simp
  have run: "getGroups 8 (directoryService nestedDirectory) exampleConnector ''jane'' ({}, []) =
       Returned ([''a'', ''c'', ''b''], None,
         ({''a'', ''b'', ''c''}, [(''jane'', []), (''a'', []), (''c'', []), (''jane'', ''p''), (''b'', [])]))"
    by code_simp
  from getGroups_transitive_reachable[OF tr fuel, of "''jane''" "[]"] run
  have "set [''a'', ''c'', ''b''] = reachableGroups nestedDirectory ''jane''"
    by simp
  then have reach: "reachableGroups nestedDirectory ''jane'' = {''a'', ''b'', ''c''}"
    by auto
  have fuel': "fuelFor selfLoopDirectory \<le> 2"
    by code_simp
  have run': "getGroups 2 (directoryService selfLoopDirectory) exampleConnector ''a'' ({}, []) =
       Returned ([''a''], None, ({''a''}, [(''a'', []), (''a'', [])]))"
    by code_simp
  from getGroups_transitive_reachable[OF tr fuel', of "''a''" "[]"] run'
  have "set [''a''] = reachableGroups selfLoopDirectory ''a''"
    by simp
  then have reach': "reachableGroups selfLoopDirectory ''a'' = {''a''}"
    by auto
  from tr fuel run reach fuel' run' reach' show ?thesis by blast
qed

text \<open>
  C2. The claim is that the concurrent strategy \<open>getAllGroups\<close> and the sequential transitive
  strategy \<open>getGroups\<close> return the same set of groups for every root and directory. The code
  does otherwise for \<open>jane\<close> in \<open>twoPageDirectory\<close>, whose direct groups \<open>a\<close> and \<open>b\<close> come
  on two pages: \<open>getGroups\<close> follows the page token and returns \<open>a\<close> and \<open>b\<close>;
  \<open>getAllGroups\<close> sends a single request for \<open>jane\<close>, never asks for the second page, and
  returns \<open>a\<close> alone.
\<close>

theorem strategies_differ_on_second_page:
  "getGroups 6 (directoryService twoPageDirectory) exampleConnector ''jane'' ({}, []) =
     Returned ([''a'', ''b''], None,
       ({''a'', ''b''}, [(''jane'', []), (''a'', []), (''jane'', ''p''), (''b'', [])]))
   \<and> getAllGroups 6 (directoryService twoPageDirectory) exampleConnector ''jane'' [] =
     Returned ([''a''], None, [(''jane'', []), (''a'', [])])"
  by code_simp

text \<open>
  C3. The claim is that no group occurs twice in a result, in particular when a seed of
  the concurrent strategy is also reachable through another seed. The code does otherwise
  for \<open>jane\<close> in \<open>seedDirectory\<close>: the seeds are \<open>a\<close> and \<open>b\<close>; the seeds are never entered into
  the checked set, so the worker of \<open>b\<close> finds \<open>a\<close> unchecked and returns it, and the worker
  of \<open>a\<close> appends \<open>a\<close> as its own seed: the result lists \<open>a\<close> twice. (For the sequential
  strategy the claim holds: \<open>getGroups_distinct\<close>.)
\<close>

theorem getAllGroups_repeats_seed:
  "getAllGroups 2 (directoryService seedDirectory) exampleConnector ''jane'' [] =
     Returned ([''a'', ''a'', ''b''], None, [(''jane'', []), (''a'', []), (''b'', []), (''a'', [])])"
  by code_simp

text \<open>
  C4. The claim is that every direct group of the root, from every page, becomes a seed of
  the concurrent strategy. The code does otherwise for \<open>jane\<close> in \<open>pagedSeedsDirectory\<close>:
  \<open>getAllGroups\<close> sends one request for \<open>jane\<close> and ignores the page token of the answer, so
  \<open>b\<close> on the second page is no seed: neither \<open>b\<close> nor its group \<open>d\<close> is requested or
  returned.
\<close>

theorem getAllGroups_seeds_first_page:
  "getAllGroups 4 (directoryService pagedSeedsDirectory) exampleConnector ''jane'' [] =
     Returned ([''c'', ''a''], None, [(''jane'', []), (''a'', []), (''c'', [])])"
  by code_simp





text \<open>
  C7. When the list of required groups is not empty and the lookup has succeeded with the
  groups \<open>gs\<close>, \<open>createIdentity\<close> returns the identity with the groups of \<open>gs\<close> that are
  required (their set is the intersection of \<open>gs\<close> with the required groups), unless that
  intersection is empty: then, and only then, it returns the error that the user is in none
  of the required groups.
\<close>

theorem allow_list_intersection:
  assumes "accepted c token idTok cl" and "scopes_Groups s" and "adminSrv c = Some srv"
    and "groups c \<noteq> []"
    and "resolveGroups n srv c (claims_Email cl) reqs = Returned (gs, None, reqs')"
  shows "set (Filter gs (groups c)) = set gs \<inter> set (groups c)
    \<and> createIdentity n c ident s token reqs =
       (if set gs \<inter> set (groups c) = {}
        then Returned (ident, Some (notInRequiredGroups (claims_Username cl)), reqs')
        else Returned (\<lparr>UserID = Subject idTok, Username = claims_Username cl,
               Email = claims_Email cl, EmailVerified = claims_EmailVerified cl,
               ConnectorData = RefreshToken token, Groups = Filter gs (groups c)\<rparr>, None, reqs'))"
  using createIdentity_lookup[OF assms(1,2,3,5), of ident] assms(4)
  by (simp add: set_Filter Filter_Nil_iff)

theorem allow_list_intersection_witness:
  "createIdentity 2 (allowListConnector flatDirectory) noIdentity groupsScope exampleToken [] =
     Returned (\<lparr>UserID = ''subject-1'', Username = ''Jane'', Email = ''jane'', EmailVerified = True,
             ConnectorData = ''refresh'', Groups = [''b'']\<rparr>, None,
           [(''jane'', []), (''a'', []), (''b'', []), (''c'', [])])
   \<and> createIdentity 2 (allowListConnector outsideDirectory) noIdentity groupsScope exampleToken [] =
     Returned (noIdentity, Some (notInRequiredGroups ''Jane''), [(''jane'', []), (''a'', []), (''c'', [])])"
proof -
  have sc: "scopes_Groups groupsScope" by (simp add: groupsScope_def)
  have srv: "adminSrv (allowListConnector D) = Some (directoryService D)" for D
    by (simp add: allowListConnector_def)
  have gr: "groups (allowListConnector D) = [''b'', ''d'']" "groups (allowListConnector D) \<noteq> []" for D
    by (simp_all add: allowListConnector_def)
  have cl: "claims_Email exampleClaims = ''jane''" "claims_Username exampleClaims = ''Jane''"
    "claims_EmailVerified exampleClaims" "Subject exampleIDToken = ''subject-1''"
    "RefreshToken exampleToken = ''refresh''"
    by (simp_all add: exampleClaims_def exampleIDToken_def exampleToken_def)
  have r1: "resolveGroups 2 (directoryService flatDirectory) (allowListConnector flatDirectory)
      (claims_Email exampleClaims) [] =
      Returned ([''a'', ''b'', ''c''], None, [(''jane'', []), (''a'', []), (''b'', []), (''c'', [])])"
    by code_simp
  have r2: "resolveGroups 2 (directoryService outsideDirectory) (allowListConnector outsideDirectory)
      (claims_Email exampleClaims) [] =
      Returned ([''a'', ''c''], None, [(''jane'', []), (''a'', []), (''c'', [])])"
    by code_simp
  from allow_list_intersection[OF accepted_example sc srv gr(2) r1, of noIdentity]
  have 1: "createIdentity 2 (allowListConnector flatDirectory) noIdentity groupsScope exampleToken [] =
     Returned (\<lparr>UserID = ''subject-1'', Username = ''Jane'', Email = ''jane'', EmailVerified = True,
             ConnectorData = ''refresh'', Groups = [''b'']\<rparr>, None,
           [(''jane'', []), (''a'', []), (''b'', []), (''c'', [])])"
    by (simp add: gr cl Filter_def)
  from allow_list_intersection[OF accepted_example sc srv gr(2) r2, of noIdentity]
  have 2: "createIdentity 2 (allowListConnector outsideDirectory) noIdentity groupsScope exampleToken [] =
     Returned (noIdentity, Some (notInRequiredGroups ''Jane''), [(''jane'', []), (''a'', []), (''c'', [])])"
    by (simp add: gr cl)
  from 1 2 show ?thesis by (rule conjI)
qed

text \<open>
  C8. The claim is that in direct-membership-only mode the lookup sends one request to the
  directory service, does not recurse and uses no checked set. The code does otherwise
  for \<open>jane\<close> in \<open>repeatingDirectory\<close>: two requests are sent, one per page, and the group \<open>a\<close>,
  listed on both pages, is returned once, as the checked set drops its repetition.
\<close>

theorem direct_lookup_counterexample:
  "createIdentity 2 (directLookupConnector repeatingDirectory) noIdentity groupsScope exampleToken [] =
     Returned (\<lparr>UserID = ''subject-1'', Username = ''Jane'', Email = ''jane'', EmailVerified = True,
             ConnectorData = ''refresh'', Groups = [''a'', ''b'']\<rparr>, None,
           [(''jane'', []), (''jane'', ''p'')])"
  by code_simp

text \<open>
  C8, as amended. In direct-membership-only mode \<open>createIdentity\<close> runs \<open>getGroups\<close> once
  with an empty checked set: it sends one request per page of the listing of the user, all
  of them for the user and none for a group, and the groups it goes on with (to return
  them, or to filter them first when groups are required) are the groups of these pages,
  each once.
\<close>

theorem direct_lookup_pages:
  assumes "accepted c token idTok cl" and "scopes_Groups s" and "adminSrv c = Some srv"
    and "\<not> fetchTransitiveGroupMembership c"
    and "servesPages srv (domain c) (claims_Email cl) [] ps" and "length ps \<le> n"
  shows "\<exists>gs. distinct gs \<and> set gs = set (concat (map fst ps))
     \<and> createIdentity n c ident s token reqs =
         (if groups c \<noteq> [] \<and> Filter gs (groups c) = []
          then Returned (ident, Some (notInRequiredGroups (claims_Username cl)),
                 reqs @ pageRequests (claims_Email cl) [] ps)
          else Returned (\<lparr>UserID = Subject idTok, Username = claims_Username cl,
                 Email = claims_Email cl, EmailVerified = claims_EmailVerified cl,
                 ConnectorData = RefreshToken token,
                 Groups = (if groups c \<noteq> [] then Filter gs (groups c) else gs)\<rparr>, None,
               reqs @ pageRequests (claims_Email cl) [] ps))"
proof -
  from resolveGroups_direct[OF assms(4,5,6), of reqs] obtain gs where
    res: "resolveGroups n srv c (claims_Email cl) reqs =
        Returned (gs, None, reqs @ pageRequests (claims_Email cl) [] ps)"
    and gs: "distinct gs" "set gs = set (concat (map fst ps))"
    by blast
  from createIdentity_lookup[OF assms(1,2,3) res, of ident]
  have "createIdentity n c ident s token reqs =
         (if groups c \<noteq> [] \<and> Filter gs (groups c) = []
          then Returned (ident, Some (notInRequiredGroups (claims_Username cl)),
                 reqs @ pageRequests (claims_Email cl) [] ps)
          else Returned (\<lparr>UserID = Subject idTok, Username = claims_Username cl,
                 Email = claims_Email cl, EmailVerified = claims_EmailVerified cl,
                 ConnectorData = RefreshToken token,
                 Groups = (if groups c \<noteq> [] then Filter gs (groups c) else gs)\<rparr>, None,
               reqs @ pageRequests (claims_Email cl) [] ps))"
    by simp
  with gs show ?thesis by blast
qed

theorem direct_lookup_pages_witness:
  "servesPages (directoryService repeatingDirectory) (domain (directLookupConnector repeatingDirectory))
     ''jane'' [] [([''a''], ''p''), ([''a'', ''b''], [])]
   \<and> (\<exists>gs. distinct gs \<and> set gs = {''a'', ''b''}
     \<and> createIdentity 2 (directLookupConnector repeatingDirectory) noIdentity groupsScope exampleToken [] =
       Returned (\<lparr>UserID = ''subject-1'', Username = ''Jane'', Email = ''jane'', EmailVerified = True,
               ConnectorData = ''refresh'', Groups = gs\<rparr>, None,
             [(''jane'', []), (''jane'', ''p'')]))"
proof -
  let ?c = "directLookupConnector repeatingDirectory"
  let ?ps = "[([''a''], ''p''), ([''a'', ''b''], [])]"
  have cl: "claims_Email exampleClaims = ''jane''" "claims_Username exampleClaims = ''Jane''"
    "claims_EmailVerified exampleClaims" "Subject exampleIDToken = ''subject-1''"
    "RefreshToken exampleToken = ''refresh''"
    by (simp_all add: exampleClaims_def exampleIDToken_def exampleToken_def)
  have acc: "accepted ?c exampleToken exampleIDToken exampleClaims"
    by (rule accepted_example_any)
      (simp_all add: directLookupConnector_def directConnector_def exampleConnector_def)
  have sc: "scopes_Groups groupsScope" by (simp add: groupsScope_def)
  have c: "adminSrv ?c = Some (directoryService repeatingDirectory)"
    "\<not> fetchTransitiveGroupMembership ?c" "groups ?c = []"
    by (simp_all add: directLookupConnector_def directConnector_def exampleConnector_def)
  have pages: "servesPages (directoryService repeatingDirectory) (domain ?c) ''jane'' [] ?ps"
    by code_simp
  have pages': "servesPages (directoryService repeatingDirectory) (domain ?c) (claims_Email exampleClaims) [] ?ps"
    using pages by (simp add: cl)
  have len: "length ?ps \<le> 2" by simp
  from direct_lookup_pages[OF acc sc c(1,2) pages' len, of noIdentity "[]"]
  show ?thesis using pages by (simp add: c(3) cl pageRequests_def insert_commute)
qed

text \<open>
  C10. Unless the caller asks for the groups scope and a directory service is configured,
  \<open>createIdentity\<close> (once the ID token is accepted) returns the identity with no groups and
  no error, and sends no request to the directory service, whatever the transitive flag and
  the list of required groups are; not a single nested step is needed for it.
\<close>

theorem lookup_needs_scope_and_service:
  assumes "accepted c token idTok cl" and "\<not> (scopes_Groups s \<and> adminSrv c \<noteq> None)"
  shows "createIdentity n c ident s token reqs =
     Returned (\<lparr>UserID = Subject idTok, Username = claims_Username cl,
             Email = claims_Email cl, EmailVerified = claims_EmailVerified cl,
             ConnectorData = RefreshToken token, Groups = []\<rparr>, None, reqs)"
proof -
  from assms(1) obtain rawIDToken where tok: "id_token token = Some rawIDToken"
    and ver: "verifier c rawIDToken = Inr idTok" and cl: "Claims idTok = Inr cl"
    and hd: "hostedDomains c = [] \<or> HostedDomain cl \<in> set (hostedDomains c)"
    unfolding accepted_def by blast
  show ?thesis
  proof (cases "scopes_Groups s")
    case False
    then show ?thesis unfolding createIdentity_def using tok ver cl hd
      by (auto simp: Let_def split: option.splits)
  next
    case True
    with assms(2) have "adminSrv c = None" by simp
    then show ?thesis unfolding createIdentity_def using tok ver cl hd
      by (auto simp: Let_def split: bool.splits)
  qed
qed

theorem lookup_needs_scope_and_service_witness:
  "fetchTransitiveGroupMembership (exampleConnector\<lparr>groups := [''b'', ''d'']\<rparr>)
   \<and> groups (exampleConnector\<lparr>groups := [''b'', ''d'']\<rparr>) \<noteq> []
   \<and> createIdentity 0 (exampleConnector\<lparr>groups := [''b'', ''d'']\<rparr>) noIdentity groupsScope exampleToken [] =
     Returned (\<lparr>UserID = ''subject-1'', Username = ''Jane'', Email = ''jane'', EmailVerified = True,
             ConnectorData = ''refresh'', Groups = []\<rparr>, None, [])
   \<and> createIdentity 0 (allowListConnector flatDirectory) noIdentity
        \<lparr>OfflineAccess = True, scopes_Groups = False\<rparr> exampleToken [] =
     Returned (\<lparr>UserID = ''subject-1'', Username = ''Jane'', Email = ''jane'', EmailVerified = True,
             ConnectorData = ''refresh'', Groups = []\<rparr>, None, [])"
proof -
  let ?c = "exampleConnector\<lparr>groups := [''b'', ''d'']\<rparr>"
  have cl: "claims_Email exampleClaims = ''jane''" "claims_Username exampleClaims = ''Jane''"
    "claims_EmailVerified exampleClaims" "Subject exampleIDToken = ''subject-1''"
    "RefreshToken exampleToken = ''refresh''"
    by (simp_all add: exampleClaims_def exampleIDToken_def exampleToken_def)
  have acc: "accepted ?c exampleToken exampleIDToken exampleClaims"
    by (rule accepted_example_any) (simp_all add: exampleConnector_def)
  have no: "\<not> (scopes_Groups groupsScope \<and> adminSrv ?c \<noteq> None)"
    by (simp add: exampleConnector_def)
  have no': "\<not> (scopes_Groups \<lparr>OfflineAccess = True, scopes_Groups = False\<rparr>
      \<and> adminSrv (allowListConnector flatDirectory) \<noteq> None)"
    by simp
  have "fetchTransitiveGroupMembership ?c" "groups ?c \<noteq> []"
    by (simp_all add: exampleConnector_def)
  moreover note lookup_needs_scope_and_service[OF acc no, of 0 noIdentity "[]", unfolded cl]
    lookup_needs_scope_and_service[OF accepted_example no', of 0 noIdentity "[]", unfolded cl]
  ultimately show ?thesis by (simp add: cl)
qed

end
